theory Spec2Isabelle
  imports Main "HOL-Library.Char_ord" "HOL-Library.List_Lexorder"
begin

section \<open>Strings and character classes\<close>

text \<open>
  File names are strings over the code points 0..255, one \<^typ>\<open>char\<close> per code point.
  In that range the class \<^verbatim>\<open>\d\<close> of Python's \<^verbatim>\<open>re\<close> module holds exactly the
  ten ASCII digits, and \<^verbatim>\<open>.\<close> holds every character but the line feed.
\<close>

definition newline :: char where
  "newline = CHR 0x0A"

definition is_digit :: "char \<Rightarrow> bool" where
  "is_digit c = (c \<in> set ''0123456789'')"

datatype cclass = Lit char | AnyChar | Digit

fun accepts :: "cclass \<Rightarrow> char \<Rightarrow> bool" where
  "accepts (Lit a) c = (c = a)"
| "accepts AnyChar c = (c \<noteq> newline)"
| "accepts Digit c = is_digit c"

section \<open>A backtracking matcher for the constructs of the pattern\<close>

text \<open>
  The pattern of \<^verbatim>\<open>parse_package_filename\<close> uses anchors, single characters, the
  greedy \<^verbatim>\<open>+\<close>, the lazy \<^verbatim>\<open>+?\<close> and \<^verbatim>\<open>*?\<close> on character classes, sequencing
  and numbered groups. A state of the matcher is the part of the subject that is still to
  be read, with the groups captured so far. \<open>run\<close> returns every way a pattern can match
  from a state, in the order in which a backtracking matcher tries them: a greedy
  repetition offers its longest run first, a lazy one its shortest. The first element of
  the list for the whole pattern is the match that \<^verbatim>\<open>re.match\<close> reports.
  \<^verbatim>\<open>$\<close> matches at the end of the subject and also just before a line feed that ends it.
\<close>

datatype regex =
    Eps
  | Bol
  | Eol
  | Chr cclass
  | Plus cclass
  | PlusLazy cclass
  | StarLazy cclass
  | Seq regex regex
  | Group nat regex

type_synonym groups = "nat \<Rightarrow> string option"

definition reps :: "cclass \<Rightarrow> string \<Rightarrow> nat" where
  "reps c t = length (takeWhile (accepts c) t)"

fun run :: "string \<Rightarrow> regex \<Rightarrow> string \<times> groups \<Rightarrow> (string \<times> groups) list" where
  "run s Eps (t, g) = [(t, g)]"
| "run s Bol (t, g) = (if length t = length s then [(t, g)] else [])"
| "run s Eol (t, g) = (if t = [] \<or> t = [newline] then [(t, g)] else [])"
| "run s (Chr c) (t, g) =
     (case t of [] \<Rightarrow> [] | x # t' \<Rightarrow> if accepts c x then [(t', g)] else [])"
| "run s (Plus c) (t, g) = map (\<lambda>k. (drop k t, g)) (rev [1..<Suc (reps c t)])"
| "run s (PlusLazy c) (t, g) = map (\<lambda>k. (drop k t, g)) [1..<Suc (reps c t)]"
| "run s (StarLazy c) (t, g) = map (\<lambda>k. (drop k t, g)) [0..<Suc (reps c t)]"
| "run s (Seq r1 r2) st = concat (map (run s r2) (run s r1 st))"
| "run s (Group n r) (t, g) =
     map (\<lambda>(t', h). (t', h(n \<mapsto> take (length t - length t') t))) (run s r (t, g))"

fun cat :: "regex list \<Rightarrow> regex" where
  "cat [] = Eps"
| "cat (r # rs) = Seq r (cat rs)"

definition lits :: "string \<Rightarrow> regex" where
  "lits w = cat (map (\<lambda>c. Chr (Lit c)) w)"

text \<open>\<^verbatim>\<open>re.match(pattern, string)\<close> and \<^verbatim>\<open>match.group(n)\<close>.\<close>

definition re_match :: "regex \<Rightarrow> string \<Rightarrow> groups option" where
  "re_match r s = (case run s r (s, Map.empty) of [] \<Rightarrow> None | (t, g) # _ \<Rightarrow> Some g)"

definition group :: "groups \<Rightarrow> nat \<Rightarrow> string option" where
  "group g n = g n"

section \<open>The filename parser\<close>

text \<open>The pattern \<^verbatim>\<open>^(.+?)-(\d+\.\d+\.\d+.*?)\.tar\.gz$\<close>.\<close>

definition version_re :: regex where
  "version_re =
     cat [Plus Digit, Chr (Lit CHR ''.''), Plus Digit, Chr (Lit CHR ''.''), Plus Digit,
          StarLazy AnyChar]"

definition package_re :: regex where
  "package_re =
     cat [Bol, Group 1 (PlusLazy AnyChar), Chr (Lit CHR ''-''), Group 2 version_re,
          lits ''.tar.gz'', Eol]"

definition parse_package_filename :: "string \<Rightarrow> string option \<times> string option" where
  "parse_package_filename filename =
     (case re_match package_re filename of
        Some g \<Rightarrow> (group g 1, group g 2)
      | None \<Rightarrow> (None, None))"

section \<open>Values of the registry and their JSON text\<close>

text \<open>
  The registry is made of dictionaries, lists and strings. A dictionary is an association
  list in insertion order, which is the order in which Python iterates over it and in
  which \<^verbatim>\<open>json.dumps\<close> writes it.
\<close>

datatype json = JStr string | JArr "json list" | JObj "(string \<times> json) list"

type_synonym pydict = "(string \<times> json) list"

datatype error = KeyError string | TypeError | AttributeError

text \<open>\<^verbatim>\<open>d[k]\<close>, \<^verbatim>\<open>k in d\<close> and \<^verbatim>\<open>d[k] = v\<close>: a new key goes to the end, an old key keeps its place.\<close>

definition getitem :: "pydict \<Rightarrow> string \<Rightarrow> error + json" where
  "getitem d k = (case map_of d k of None \<Rightarrow> Inl (KeyError k) | Some v \<Rightarrow> Inr v)"

definition contains :: "pydict \<Rightarrow> string \<Rightarrow> bool" where
  "contains d k = (map_of d k \<noteq> None)"

fun setitem :: "pydict \<Rightarrow> string \<Rightarrow> json \<Rightarrow> pydict" where
  "setitem [] k v = [(k, v)]"
| "setitem ((k', v') # d) k v = (if k' = k then (k, v) # d else (k', v') # setitem d k v)"

text \<open>
  \<^verbatim>\<open>json.dumps(obj, indent=2)\<close> with the default \<^verbatim>\<open>ensure_ascii\<close>: inside a string the
  quote, the backslash and the five short control escapes are written with a backslash,
  every other character outside the range from space to tilde as \<^verbatim>\<open>\u00xx\<close>.
\<close>

definition hex_digit :: "nat \<Rightarrow> char" where
  "hex_digit n = ''0123456789abcdef'' ! (n mod 16)"

definition escape_char :: "char \<Rightarrow> string" where
  "escape_char c =
     (if c = CHR 0x22 then [CHR 0x5C, CHR 0x22]
      else if c = CHR 0x5C then [CHR 0x5C, CHR 0x5C]
      else if c = CHR 0x0A then [CHR 0x5C, CHR ''n'']
      else if c = CHR 0x0D then [CHR 0x5C, CHR ''r'']
      else if c = CHR 0x09 then [CHR 0x5C, CHR ''t'']
      else if c = CHR 0x08 then [CHR 0x5C, CHR ''b'']
      else if c = CHR 0x0C then [CHR 0x5C, CHR ''f'']
      else if (of_char c :: nat) < 32 \<or> 126 < (of_char c :: nat)
        then [CHR 0x5C, CHR ''u'', CHR ''0'', CHR ''0'',
              hex_digit (of_char c div 16), hex_digit (of_char c)]
      else [c])"

definition encode_string :: "string \<Rightarrow> string" where
  "encode_string s = [CHR 0x22] @ concat (map escape_char s) @ [CHR 0x22]"

definition newline_indent :: "nat \<Rightarrow> string" where
  "newline_indent level = newline # replicate (2 * level) CHR '' ''"

fun join :: "string \<Rightarrow> string list \<Rightarrow> string" where
  "join sep [] = []"
| "join sep [x] = x"
| "join sep (x # y # ys) = x @ sep @ join sep (y # ys)"

fun encode :: "nat \<Rightarrow> json \<Rightarrow> string" where
  "encode level (JStr s) = encode_string s"
| "encode level (JArr xs) =
     (if xs = [] then ''[]''
      else ''['' @ newline_indent (Suc level)
        @ join ('','' @ newline_indent (Suc level)) (map (encode (Suc level)) xs)
        @ newline_indent level @ '']'')"
| "encode level (JObj kvs) =
     (if kvs = [] then ''{}''
      else ''{'' @ newline_indent (Suc level)
        @ join ('','' @ newline_indent (Suc level))
            (map (\<lambda>kv. encode_string (fst kv) @ '': '' @ encode (Suc level) (snd kv)) kvs)
        @ newline_indent level @ ''}'')"

definition dumps :: "json \<Rightarrow> string" where
  "dumps obj = encode 0 obj"

definition print :: "string \<Rightarrow> string" where
  "print text = text @ [newline]"

section \<open>The registry builder\<close>

text \<open>
  The directory is given by the names of its entries, in the order in which the file
  system lists them, or \<open>None\<close> when \<^verbatim>\<open>build\<close> does not exist. \<^verbatim>\<open>glob("*.tar.gz")\<close>
  keeps the names that end in \<^verbatim>\<open>.tar.gz\<close>; \<^verbatim>\<open>sorted\<close> orders the paths of one directory
  by their names, code point by code point.
\<close>

definition endswith :: "string \<Rightarrow> string \<Rightarrow> bool" where
  "endswith s sfx = (length sfx \<le> length s \<and> drop (length s - length sfx) s = sfx)"

definition glob :: "string list \<Rightarrow> string list" where
  "glob entries = filter (\<lambda>f. endswith f ''.tar.gz'') entries"

definition new_entry :: "string \<Rightarrow> json" where
  "new_entry version = JObj [(''versions'', JArr []), (''latest'', JStr version)]"

text \<open>Lines 42 to 46: \<^verbatim>\<open>if name not in packages: packages[name] = {...}\<close>.\<close>

definition ensure_entry :: "pydict \<Rightarrow> string \<Rightarrow> string \<Rightarrow> pydict" where
  "ensure_entry packages name version =
     (if \<not> contains packages name then setitem packages name (new_entry version)
      else packages)"

text \<open>
  Line 48: \<^verbatim>\<open>packages[name]["versions"].append(version)\<close>. The list lives in the entry
  and the entry in \<open>packages\<close>, and nothing else refers to either, so the mutation is
  the update of \<open>packages\<close> at \<open>name\<close>.
\<close>

definition append_version :: "pydict \<Rightarrow> string \<Rightarrow> string \<Rightarrow> error + pydict" where
  "append_version packages name version =
     (case getitem packages name of
        Inl e \<Rightarrow> Inl e
      | Inr (JObj entry) \<Rightarrow>
          (case getitem entry ''versions'' of
             Inl e \<Rightarrow> Inl e
           | Inr (JArr vs) \<Rightarrow>
               Inr (setitem packages name (JObj (setitem entry ''versions'' (JArr (vs @ [JStr version])))))
           | Inr _ \<Rightarrow> Inl AttributeError)
      | Inr _ \<Rightarrow> Inl TypeError)"

text \<open>Line 50: \<^verbatim>\<open>packages[name]["latest"] = version\<close>.\<close>

definition set_latest :: "pydict \<Rightarrow> string \<Rightarrow> string \<Rightarrow> error + pydict" where
  "set_latest packages name version =
     (case getitem packages name of
        Inl e \<Rightarrow> Inl e
      | Inr (JObj entry) \<Rightarrow>
          Inr (setitem packages name (JObj (setitem entry ''latest'' (JStr version))))
      | Inr _ \<Rightarrow> Inl TypeError)"

definition add_version :: "pydict \<Rightarrow> string \<Rightarrow> string \<Rightarrow> error + pydict" where
  "add_version packages name version =
     (case append_version (ensure_entry packages name version) name version of
        Inl e \<Rightarrow> Inl e
      | Inr packages' \<Rightarrow> set_latest packages' name version)"

text \<open>The body of the loop; \<^verbatim>\<open>if name and version\<close> asks for two non-empty strings.\<close>

definition loop_body :: "pydict \<Rightarrow> string \<Rightarrow> error + pydict" where
  "loop_body packages tarball =
     (case parse_package_filename tarball of
        (Some name, Some version) \<Rightarrow>
          if name \<noteq> [] \<and> version \<noteq> [] then add_version packages name version
          else Inr packages
      | _ \<Rightarrow> Inr packages)"

fun loop :: "pydict \<Rightarrow> string list \<Rightarrow> error + pydict" where
  "loop packages [] = Inr packages"
| "loop packages (tarball # rest) =
     (case loop_body packages tarball of
        Inl e \<Rightarrow> Inl e
      | Inr packages' \<Rightarrow> loop packages' rest)"

definition build_packages :: "string list \<Rightarrow> error + pydict" where
  "build_packages entries = loop [] (sort (glob entries))"

text \<open>\<open>main\<close> returns the text written to standard output, or the exception that ends the run.\<close>

definition main :: "string list option \<Rightarrow> error + string" where
  "main build_dir =
     (case build_dir of
        None \<Rightarrow> Inr (print (dumps (JObj [(''packages'', JObj [])])))
      | Some entries \<Rightarrow>
          (case build_packages entries of
             Inl e \<Rightarrow> Inl e
           | Inr packages \<Rightarrow> Inr (print (dumps (JObj [(''packages'', JObj packages)])))))"

section \<open>Notions used in the statements\<close>

text \<open>
  A non-empty string of digits, what \<^verbatim>\<open>\d+\<close> matches; and a string that begins with a
  token matching \<^verbatim>\<open>\d+\.\d+\.\d+\<close>.
\<close>

definition digits :: "string \<Rightarrow> bool" where
  "digits w = (w \<noteq> [] \<and> list_all is_digit w)"

definition version_like :: "string \<Rightarrow> bool" where
  "version_like v =
     (\<exists>a b c r. v = a @ ''.'' @ b @ ''.'' @ c @ r \<and> digits a \<and> digits b \<and> digits c)"

text \<open>
  The same notion as a function that can be run: \<open>digits_dot\<close> reads a non-empty run of
  digits and the dot after it, and returns the rest.
\<close>

definition digits_dot :: "string \<Rightarrow> string option" where
  "digits_dot t =
     (case dropWhile is_digit t of
        [] \<Rightarrow> None
      | x # m \<Rightarrow> if x = CHR ''.'' \<and> takeWhile is_digit t \<noteq> [] then Some m else None)"

definition starts_version :: "string \<Rightarrow> bool" where
  "starts_version t =
     (case digits_dot t of
        None \<Rightarrow> False
      | Some t1 \<Rightarrow>
          (case digits_dot t1 of
             None \<Rightarrow> False
           | Some t2 \<Rightarrow> (case t2 of [] \<Rightarrow> False | x # _ \<Rightarrow> is_digit x)))"

text \<open>
  A name splits early when one of its dashes, the first character of the name apart, is
  directly followed by a version token: the lazy name group then stops at that dash.
\<close>

definition early_split :: "string \<Rightarrow> bool" where
  "early_split n =
     list_ex (\<lambda>k. n ! k = CHR ''-'' \<and> starts_version (drop (Suc k) n)) [1..<length n]"


text \<open>The part of the pattern after the name group, and the strings its version group matches.\<close>

definition tail_re :: regex where
  "tail_re = cat [Chr (Lit CHR ''-''), Group 2 version_re, lits ''.tar.gz'', Eol]"

definition vlang :: "string \<Rightarrow> bool" where
  "vlang v = (\<exists>a b c r. digits a \<and> digits b \<and> digits c \<and> newline \<notin> set r
            \<and> v = a @ ''.'' @ b @ ''.'' @ c @ r)"

text \<open>
  The archives of one name in a list of file names, in the order of the list, and their
  versions.
\<close>

definition archives_of :: "string \<Rightarrow> string list \<Rightarrow> string list" where
  "archives_of name files = filter (\<lambda>f. fst (parse_package_filename f) = Some name) files"

definition version_of :: "string \<Rightarrow> string" where
  "version_of f = (case snd (parse_package_filename f) of None \<Rightarrow> [] | Some v \<Rightarrow> v)"

definition versions_of :: "string \<Rightarrow> string list \<Rightarrow> string list" where
  "versions_of name files = map version_of (archives_of name files)"

text \<open>\<^verbatim>\<open>d[k1][k2]\<close>, and the entry that holds a list of versions and its last element.\<close>

definition getitem2 :: "pydict \<Rightarrow> string \<Rightarrow> string \<Rightarrow> error + json" where
  "getitem2 d k1 k2 =
     (case getitem d k1 of
        Inl e \<Rightarrow> Inl e
      | Inr (JObj entry) \<Rightarrow> getitem entry k2
      | Inr _ \<Rightarrow> Inl TypeError)"

definition entry_of :: "string list \<Rightarrow> json" where
  "entry_of vs = JObj [(''versions'', JArr (map JStr vs)), (''latest'', JStr (last vs))]"

definition represents :: "pydict \<Rightarrow> (string \<Rightarrow> string list) \<Rightarrow> bool" where
  "represents d vs =
     (distinct (map fst d) \<and>
      (\<forall>n. map_of d n = (if vs n = [] then None else Some (entry_of (vs n)))))"

text \<open>
  An entry is well formed when it has the two keys \<^verbatim>\<open>versions\<close> and \<^verbatim>\<open>latest\<close>, in this
  order, a non-empty list of versions, and the last of them as \<^verbatim>\<open>latest\<close>.
\<close>

definition well_formed_entry :: "json \<Rightarrow> bool" where
  "well_formed_entry e =
     (case e of
        JObj [(k1, JArr vs), (k2, JStr l)] \<Rightarrow>
          k1 = ''versions'' \<and> k2 = ''latest'' \<and> vs \<noteq> [] \<and> last vs = JStr l
      | _ \<Rightarrow> False)"

section \<open>Dictionaries\<close>

lemma map_of_setitem: "map_of (setitem d k v) = (map_of d)(k \<mapsto> v)"
  by (induction d) auto

lemma keys_setitem:
  "map fst (setitem d k v) = (if k \<in> fst ` set d then map fst d else map fst d @ [k])"
  by (induction d) force+

lemma getitem_setitem: "getitem (setitem d k v) k = Inr v"
  by (simp add: getitem_def map_of_setitem)

section \<open>What the matcher accepts\<close>

lemma take_le_takeWhile:
  "k \<le> length (takeWhile P t) \<Longrightarrow> \<forall>x\<in>set (take k t). P x"
proof -
  assume k: "k \<le> length (takeWhile P t)"
  have "take k t = take k (takeWhile P t @ dropWhile P t)" by simp
  also have "\<dots> = take k (takeWhile P t)" using k by (simp del: takeWhile_dropWhile_id)
  finally have "set (take k t) \<subseteq> set (takeWhile P t)" by (metis set_take_subset)
  then show ?thesis by (auto dest: set_takeWhileD)
qed

lemma length_le_takeWhile:
  "\<forall>x\<in>set w. P x \<Longrightarrow> length w \<le> length (takeWhile P (w @ t'))"
  by (simp add: takeWhile_append2)

lemma reps_iff:
  "(\<exists>k. lo \<le> k \<and> k \<le> reps c t \<and> t' = drop k t)
     \<longleftrightarrow> (\<exists>w. lo \<le> length w \<and> (\<forall>x\<in>set w. accepts c x) \<and> t = w @ t')"
proof
  assume "\<exists>k. lo \<le> k \<and> k \<le> reps c t \<and> t' = drop k t"
  then obtain k where k: "lo \<le> k" "k \<le> reps c t" "t' = drop k t" by blast
  have len: "k \<le> length t"
    using k(2) length_takeWhile_le [of "accepts c" t] by (simp add: reps_def)
  have "\<forall>x\<in>set (take k t). accepts c x"
    using k(2) by (simp add: reps_def take_le_takeWhile)
  moreover have "t = take k t @ t'" using k(3) by simp
  moreover have "lo \<le> length (take k t)" using k(1) len by simp
  ultimately show "\<exists>w. lo \<le> length w \<and> (\<forall>x\<in>set w. accepts c x) \<and> t = w @ t'" by blast
next
  assume "\<exists>w. lo \<le> length w \<and> (\<forall>x\<in>set w. accepts c x) \<and> t = w @ t'"
  then obtain w where w: "lo \<le> length w" "\<forall>x\<in>set w. accepts c x" "t = w @ t'" by blast
  have "length w \<le> reps c t" using w(2,3) by (simp add: reps_def takeWhile_append2)
  moreover have "t' = drop (length w) t" using w(3) by simp
  ultimately show "\<exists>k. lo \<le> k \<and> k \<le> reps c t \<and> t' = drop k t" using w(1) by blast
qed

lemma in_upt_drops:
  "(t', h) \<in> set (map (\<lambda>k. (drop k t, g)) [lo..<Suc n])
     \<longleftrightarrow> h = g \<and> (\<exists>k. lo \<le> k \<and> k \<le> n \<and> t' = drop k t)"
  by (auto simp: less_Suc_eq_le simp del: upt_Suc)

lemma in_run_Chr:
  "(t', h) \<in> set (run s (Chr c) (t, g)) \<longleftrightarrow> h = g \<and> (\<exists>x. accepts c x \<and> t = x # t')"
  by (cases t) auto

lemma in_run_Plus:
  "(t', h) \<in> set (run s (Plus c) (t, g))
     \<longleftrightarrow> h = g \<and> (\<exists>w. w \<noteq> [] \<and> (\<forall>x\<in>set w. accepts c x) \<and> t = w @ t')"
proof -
  have "(t', h) \<in> set (run s (Plus c) (t, g))
      \<longleftrightarrow> h = g \<and> (\<exists>k. 1 \<le> k \<and> k \<le> reps c t \<and> t' = drop k t)"
    using in_upt_drops [of t' h t g 1 "reps c t"] by (simp del: upt_Suc)
  also have "\<dots> \<longleftrightarrow> h = g \<and> (\<exists>w. 1 \<le> length w \<and> (\<forall>x\<in>set w. accepts c x) \<and> t = w @ t')"
    by (simp only: reps_iff)
  also have "\<dots> \<longleftrightarrow> h = g \<and> (\<exists>w. w \<noteq> [] \<and> (\<forall>x\<in>set w. accepts c x) \<and> t = w @ t')"
    by (simp add: Suc_le_eq)
  finally show ?thesis .
qed

lemma in_run_PlusLazy:
  "(t', h) \<in> set (run s (PlusLazy c) (t, g))
     \<longleftrightarrow> h = g \<and> (\<exists>w. w \<noteq> [] \<and> (\<forall>x\<in>set w. accepts c x) \<and> t = w @ t')"
proof -
  have "(t', h) \<in> set (run s (PlusLazy c) (t, g))
      \<longleftrightarrow> h = g \<and> (\<exists>k. 1 \<le> k \<and> k \<le> reps c t \<and> t' = drop k t)"
    using in_upt_drops [of t' h t g 1 "reps c t"] by (simp del: upt_Suc)
  also have "\<dots> \<longleftrightarrow> h = g \<and> (\<exists>w. 1 \<le> length w \<and> (\<forall>x\<in>set w. accepts c x) \<and> t = w @ t')"
    by (simp only: reps_iff)
  also have "\<dots> \<longleftrightarrow> h = g \<and> (\<exists>w. w \<noteq> [] \<and> (\<forall>x\<in>set w. accepts c x) \<and> t = w @ t')"
    by (simp add: Suc_le_eq)
  finally show ?thesis .
qed

lemma in_run_StarLazy:
  "(t', h) \<in> set (run s (StarLazy c) (t, g))
     \<longleftrightarrow> h = g \<and> (\<exists>w. (\<forall>x\<in>set w. accepts c x) \<and> t = w @ t')"
proof -
  have "(t', h) \<in> set (run s (StarLazy c) (t, g))
      \<longleftrightarrow> h = g \<and> (\<exists>k. 0 \<le> k \<and> k \<le> reps c t \<and> t' = drop k t)"
    using in_upt_drops [of t' h t g 0 "reps c t"] by (simp del: upt_Suc)
  also have "\<dots> \<longleftrightarrow> h = g \<and> (\<exists>w. 0 \<le> length w \<and> (\<forall>x\<in>set w. accepts c x) \<and> t = w @ t')"
    by (simp only: reps_iff)
  finally show ?thesis by simp
qed

lemma in_run_Seq:
  "(t', h) \<in> set (run s (Seq r1 r2) st)
     \<longleftrightarrow> (\<exists>m k. (m, k) \<in> set (run s r1 st) \<and> (t', h) \<in> set (run s r2 (m, k)))"
  by auto

lemma in_run_Group:
  "(t', h) \<in> set (run s (Group n r) (t, g))
     \<longleftrightarrow> (\<exists>k. (t', k) \<in> set (run s r (t, g)) \<and> h = k(n \<mapsto> take (length t - length t') t))"
  by force

lemma in_run_Eps: "(t', h) \<in> set (run s Eps (t, g)) \<longleftrightarrow> h = g \<and> t' = t"
  by auto

lemma in_run_Eol:
  "(t', h) \<in> set (run s Eol (t, g)) \<longleftrightarrow> h = g \<and> t' = t \<and> (t = [] \<or> t = [newline])"
  by auto

lemma in_run_Bol:
  "(t', h) \<in> set (run s Bol (t, g)) \<longleftrightarrow> h = g \<and> t' = t \<and> length t = length s"
  by auto

lemma in_run_lits:
  "(t', h) \<in> set (run s (lits w) (t, g)) \<longleftrightarrow> h = g \<and> t = w @ t'"
proof (induction w arbitrary: t)
  case Nil
  show ?case by (auto simp: lits_def)
next
  case (Cons c w)
  have eq: "lits (c # w) = Seq (Chr (Lit c)) (lits w)" by (simp add: lits_def)
  have "(t', h) \<in> set (run s (lits (c # w)) (t, g))
      \<longleftrightarrow> (\<exists>m k. (m, k) \<in> set (run s (Chr (Lit c)) (t, g))
            \<and> (t', h) \<in> set (run s (lits w) (m, k)))"
    unfolding eq by (rule in_run_Seq)
  also have "\<dots> \<longleftrightarrow> h = g \<and> t = (c # w) @ t'"
    by (auto simp: in_run_Chr Cons.IH simp del: run.simps)
  finally show ?case .
qed


declare run.simps [simp del]

lemma is_digit_not_special:
  "is_digit x \<Longrightarrow> x \<noteq> CHR ''.'' \<and> x \<noteq> CHR ''-'' \<and> x \<noteq> newline"
  by (auto simp: is_digit_def newline_def)

lemma digits_set: "digits a \<longleftrightarrow> a \<noteq> [] \<and> (\<forall>x\<in>set a. is_digit x)"
  by (simp add: digits_def list_all_iff)

lemma in_run_digits_dot:
  "(t', h) \<in> set (run s (Seq (Plus Digit) (Seq (Chr (Lit CHR ''.'')) r)) (t, g))
     \<longleftrightarrow> (\<exists>a m. digits a \<and> t = a @ ''.'' @ m \<and> (t', h) \<in> set (run s r (m, g)))"
  by (simp add: in_run_Seq in_run_Plus in_run_Chr digits_set) blast

lemma in_run_digits_any:
  "(t', h) \<in> set (run s (Seq (Plus Digit) (Seq (StarLazy AnyChar) Eps)) (t, g))
     \<longleftrightarrow> h = g \<and> (\<exists>c r. digits c \<and> newline \<notin> set r \<and> t = c @ r @ t')"
  by (simp add: in_run_Seq in_run_Plus in_run_StarLazy in_run_Eps digits_set) blast

lemma version_re_unfold:
  "version_re = Seq (Plus Digit) (Seq (Chr (Lit CHR ''.''))
     (Seq (Plus Digit) (Seq (Chr (Lit CHR ''.'')) (Seq (Plus Digit) (Seq (StarLazy AnyChar) Eps)))))"
  by (simp add: version_re_def)

lemma in_run_version:
  "(t', h) \<in> set (run s version_re (t, g))
     \<longleftrightarrow> h = g \<and> (\<exists>a b c r. digits a \<and> digits b \<and> digits c \<and> newline \<notin> set r
            \<and> t = a @ ''.'' @ b @ ''.'' @ c @ r @ t')"
  unfolding version_re_unfold
  by (simp only: in_run_digits_dot in_run_digits_any append_assoc) blast

lemma in_run_version_lang:
  "(t', h) \<in> set (run s version_re (t, g)) \<longleftrightarrow> h = g \<and> (\<exists>v. vlang v \<and> t = v @ t')"
  unfolding in_run_version vlang_def
  apply (rule iffI)
   apply (elim conjE exE)
   apply (rule conjI, assumption)
   apply (simp only: append_assoc [symmetric])
   apply blast
  apply (elim conjE exE)
  apply (rule conjI, assumption)
  apply (simp only: append_assoc)
  apply blast
  done

lemma tail_re_unfold:
  "tail_re = Seq (Chr (Lit CHR ''-'')) (Seq (Group 2 version_re) (Seq (lits ''.tar.gz'') (Seq Eol Eps)))"
  by (simp add: tail_re_def)

lemma in_run_tail:
  "(t', h) \<in> set (run s tail_re (t, g))
     \<longleftrightarrow> (\<exists>v. vlang v \<and> t = ''-'' @ v @ ''.tar.gz'' @ t' \<and> (t' = [] \<or> t' = [newline])
            \<and> h = g(2 \<mapsto> v))"
  unfolding tail_re_unfold
  by (simp add: in_run_Seq in_run_Chr in_run_Group in_run_version_lang in_run_lits in_run_Eol
      in_run_Eps) auto


lemma reps_le_length: "reps c t \<le> length t"
  by (simp add: reps_def length_takeWhile_le)

lemma package_re_unfold: "package_re = Seq Bol (Seq (Group 1 (PlusLazy AnyChar)) tail_re)"
  by (simp add: package_re_def tail_re_def)

lemma run_package:
  "run s package_re (s, Map.empty)
     = concat (map (\<lambda>k. run s tail_re (drop k s, [1 \<mapsto> take k s])) [1..<Suc (reps AnyChar s)])"
proof -
  let ?ks = "[1..<Suc (reps AnyChar s)]"
  have "run s (Group 1 (PlusLazy AnyChar)) (s, Map.empty)
      = map (\<lambda>k. (drop k s, [1 \<mapsto> take (length s - length (drop k s)) s])) ?ks"
    by (simp add: run.simps(6,9) comp_def del: upt_Suc length_drop)
  also have "\<dots> = map (\<lambda>k. (drop k s, [1 \<mapsto> take k s])) ?ks"
  proof (rule map_cong [OF refl])
    fix k assume "k \<in> set ?ks"
    then have "k \<le> length s" using reps_le_length [of AnyChar s] by auto
    then show "(drop k s, [1 \<mapsto> take (length s - length (drop k s)) s])
        = (drop k s, [1 \<mapsto> take k s])" by simp
  qed
  finally have name: "run s (Group 1 (PlusLazy AnyChar)) (s, Map.empty)
      = map (\<lambda>k. (drop k s, [1 \<mapsto> take k s])) ?ks" .
  have "run s package_re (s, Map.empty)
      = concat (map (run s tail_re) (run s (Group 1 (PlusLazy AnyChar)) (s, Map.empty)))"
    unfolding package_re_unfold by (simp add: run.simps(2,8))
  then show ?thesis by (simp only: name map_map comp_def)
qed

lemma in_run_package:
  "(t', h) \<in> set (run s package_re (s, Map.empty))
     \<longleftrightarrow> (\<exists>n v. n \<noteq> [] \<and> newline \<notin> set n \<and> vlang v
            \<and> s = n @ ''-'' @ v @ ''.tar.gz'' @ t' \<and> (t' = [] \<or> t' = [newline])
            \<and> h = [1 \<mapsto> n, 2 \<mapsto> v])"
  unfolding package_re_unfold
  by (simp add: in_run_Seq in_run_Bol in_run_Group in_run_PlusLazy in_run_tail) auto


lemma digits_dot_append: "digits a \<Longrightarrow> digits_dot (a @ CHR ''.'' # m) = Some m"
  using is_digit_not_special
  by (auto simp: digits_dot_def digits_set takeWhile_append2 dropWhile_append2)

lemma starts_version_append:
  assumes "digits a" "digits b" "digits c"
  shows "starts_version (a @ CHR ''.'' # b @ CHR ''.'' # c @ r)"
proof -
  from assms(3) obtain x c' where "c = x # c'" "is_digit x"
    by (cases c) (auto simp: digits_set)
  then show ?thesis
    using assms(1,2) by (simp add: starts_version_def digits_dot_append)
qed

lemma takeWhile_digit_dash:
  "takeWhile is_digit (x @ CHR ''-'' # y) = takeWhile is_digit x"
  using is_digit_not_special by (induction x) auto

lemma dropWhile_digit_dash:
  "dropWhile is_digit (x @ CHR ''-'' # y) = dropWhile is_digit x @ CHR ''-'' # y"
  using is_digit_not_special by (induction x) auto

lemma digits_dot_dash:
  "digits_dot (x @ CHR ''-'' # y) = map_option (\<lambda>m. m @ CHR ''-'' # y) (digits_dot x)"
proof (cases "dropWhile is_digit x")
  case Nil
  have "digits_dot (x @ CHR ''-'' # y) = None"
    unfolding digits_dot_def dropWhile_digit_dash Nil by simp
  moreover have "digits_dot x = None"
    unfolding digits_dot_def Nil by simp
  ultimately show ?thesis by simp
next
  case (Cons z m)
  have "digits_dot (x @ CHR ''-'' # y)
      = (if z = CHR ''.'' \<and> takeWhile is_digit x \<noteq> [] then Some (m @ CHR ''-'' # y) else None)"
    unfolding digits_dot_def dropWhile_digit_dash takeWhile_digit_dash Cons by simp
  moreover have "digits_dot x
      = (if z = CHR ''.'' \<and> takeWhile is_digit x \<noteq> [] then Some m else None)"
    unfolding digits_dot_def Cons by simp
  ultimately show ?thesis by simp
qed

lemma starts_version_dash: "starts_version (x @ CHR ''-'' # y) = starts_version x"
  using is_digit_not_special
  by (auto simp: starts_version_def digits_dot_dash split: option.splits list.splits)

lemma vlang_starts_version: "vlang v \<Longrightarrow> starts_version (v @ r)"
  using starts_version_append by (auto simp: vlang_def)

lemma digits_dot_Some:
  "digits_dot t = Some m \<Longrightarrow> \<exists>a. digits a \<and> t = a @ ''.'' @ m"
proof -
  assume a: "digits_dot t = Some m"
  have id: "t = takeWhile is_digit t @ dropWhile is_digit t" by simp
  from a have "dropWhile is_digit t = CHR ''.'' # m" "takeWhile is_digit t \<noteq> []"
    by (auto simp: digits_dot_def split: list.splits if_splits)
  moreover have "\<forall>x\<in>set (takeWhile is_digit t). is_digit x" by (auto dest: set_takeWhileD)
  ultimately show ?thesis using id by (metis append_Cons append_Nil digits_set)
qed

lemma starts_version_iff: "starts_version v \<longleftrightarrow> version_like v"
proof
  assume "starts_version v"
  then obtain t1 t2 x t3 where
    "digits_dot v = Some t1" "digits_dot t1 = Some t2" "t2 = x # t3" "is_digit x"
    by (auto simp: starts_version_def split: option.splits list.splits)
  moreover have "digits [x]" using \<open>is_digit x\<close> by (simp add: digits_def)
  ultimately show "version_like v"
    unfolding version_like_def
    by (metis digits_dot_Some append_Cons append_Nil)
next
  assume "version_like v"
  then show "starts_version v" by (auto simp: version_like_def starts_version_append)
qed


lemma vlang_nonempty: "vlang v \<Longrightarrow> v \<noteq> []"
  by (auto simp: vlang_def digits_def)

lemma vlang_no_newline: "vlang v \<Longrightarrow> newline \<notin> set v"
proof
  assume "vlang v" and nl: "newline \<in> set v"
  then obtain a b c r where abc: "digits a" "digits b" "digits c" "newline \<notin> set r"
      "v = a @ ''.'' @ b @ ''.'' @ c @ r"
    unfolding vlang_def by blast
  have "\<not> is_digit newline" using is_digit_not_special by blast
  then have "newline \<notin> set a" "newline \<notin> set b" "newline \<notin> set c"
    using abc(1-3) by (auto simp: digits_set)
  moreover have "newline \<noteq> CHR ''.''" by (simp add: newline_def)
  ultimately have "newline \<notin> set v" using abc(4) unfolding abc(5) by simp
  with nl show False by simp
qed

lemma parse_match:
  assumes "parse_package_filename s \<noteq> (None, None)"
  shows "\<exists>n v t'. parse_package_filename s = (Some n, Some v) \<and> n \<noteq> [] \<and> newline \<notin> set n
           \<and> vlang v \<and> s = n @ ''-'' @ v @ ''.tar.gz'' @ t' \<and> (t' = [] \<or> t' = [newline])"
proof (cases "run s package_re (s, Map.empty)")
  case Nil
  then have "parse_package_filename s = (None, None)"
    by (simp add: parse_package_filename_def re_match_def)
  with assms show ?thesis by simp
next
  case (Cons x xs)
  obtain t' h where x: "x = (t', h)" by (cases x)
  have "(t', h) \<in> set (run s package_re (s, Map.empty))" using Cons x by simp
  then obtain n v where nv: "n \<noteq> []" "newline \<notin> set n" "vlang v"
      "s = n @ ''-'' @ v @ ''.tar.gz'' @ t'" "t' = [] \<or> t' = [newline]"
      "h = [1 \<mapsto> n, 2 \<mapsto> v]"
    unfolding in_run_package by blast
  have "parse_package_filename s = (Some n, Some v)"
    using Cons x nv(6) by (simp add: parse_package_filename_def re_match_def group_def)
  with nv show ?thesis by blast
qed

lemma upt_split: "1 \<le> m \<Longrightarrow> m \<le> N \<Longrightarrow> [1..<Suc N] = [1..<m] @ m # [Suc m..<Suc N]"
proof -
  assume a: "1 \<le> m" "m \<le> N"
  have "[1..<Suc N] = [1..<m] @ [m..<Suc N]"
    using a upt_add_eq_append [of 1 m "Suc N - m"] by simp
  also have "[m..<Suc N] = m # [Suc m..<Suc N]" using a by (simp add: upt_conv_Cons)
  finally show ?thesis .
qed

lemma parse_first_split:
  assumes n: "n \<noteq> []" "newline \<notin> set n" and v: "vlang v" and early: "\<not> early_split n"
  shows "parse_package_filename (n @ ''-'' @ v @ ''.tar.gz'') = (Some n, Some v)"
proof -
  define s where "s = n @ ''-'' @ v @ ''.tar.gz''"
  define F where "F = (\<lambda>k. run s tail_re (drop k s, [1 \<mapsto> take k s]))"
  have run: "run s package_re (s, Map.empty) = concat (map F [1..<Suc (reps AnyChar s)])"
    unfolding F_def by (rule run_package)
  have "\<forall>x\<in>set n. accepts AnyChar x" using n(2) by auto
  then have "length n \<le> length (takeWhile (accepts AnyChar) (n @ (''-'' @ v @ ''.tar.gz'')))"
    by (rule length_le_takeWhile)
  then have "length n \<le> reps AnyChar s" by (simp add: reps_def s_def)
  moreover have "1 \<le> length n" using n(1) by (simp add: Suc_le_eq)
  ultimately have ks: "[1..<Suc (reps AnyChar s)]
      = [1..<length n] @ length n # [Suc (length n)..<Suc (reps AnyChar s)]"
    by (rule upt_split [rotated])
  have before: "F k = []" if k: "k \<in> set [1..<length n]" for k
  proof (rule ccontr)
    assume "F k \<noteq> []"
    then obtain t' h where "(t', h) \<in> set (F k)" by (cases "F k") auto
    then obtain v' where v': "vlang v'" "drop k s = ''-'' @ v' @ ''.tar.gz'' @ t'"
      unfolding F_def in_run_tail by blast
    have klt: "k < length n" using k by simp
    then have "drop k s = n ! k # drop (Suc k) n @ ''-'' @ v @ ''.tar.gz''"
      by (simp add: s_def Cons_nth_drop_Suc)
    with v'(2) have dash: "n ! k = CHR ''-''"
      and rest: "drop (Suc k) n @ CHR ''-'' # (v @ ''.tar.gz'') = v' @ (''.tar.gz'' @ t')"
      by simp_all
    have "starts_version (v' @ (''.tar.gz'' @ t'))" using v'(1) by (rule vlang_starts_version)
    then have "starts_version (drop (Suc k) n)"
      unfolding rest [symmetric] starts_version_dash .
    with dash k have "early_split n"
      unfolding early_split_def list_ex_iff by blast
    with early show False by simp
  qed
  have at: "drop (length n) s = ''-'' @ v @ ''.tar.gz''" "take (length n) s = n"
    by (simp_all add: s_def)
  have "([], [1 \<mapsto> n, 2 \<mapsto> v]) \<in> set (F (length n))"
    unfolding F_def in_run_tail at using v by simp
  moreover have same: "h = [1 \<mapsto> n, 2 \<mapsto> v]" if "(t', h) \<in> set (F (length n))" for t' h
  proof -
    from that obtain v' where v': "''-'' @ v @ ''.tar.gz'' = ''-'' @ v' @ ''.tar.gz'' @ t'"
        "t' = [] \<or> t' = [newline]" "h = [1 \<mapsto> n, 2 \<mapsto> v']"
      unfolding F_def in_run_tail at by blast
    have "t' \<noteq> [newline]"
    proof
      assume "t' = [newline]"
      with v'(1) have "last (v @ ''.tar.gz'') = last (v' @ ''.tar.gz'' @ [newline])" by simp
      then show False by (simp add: newline_def)
    qed
    with v'(2) have "t' = []" by simp
    with v'(1) have "v' = v" by simp
    with v'(3) show ?thesis by simp
  qed
  ultimately obtain t' xs where hd: "F (length n) = (t', [1 \<mapsto> n, 2 \<mapsto> v]) # xs"
  proof (cases "F (length n)")
    case Nil
    with \<open>([], [1 \<mapsto> n, 2 \<mapsto> v]) \<in> set (F (length n))\<close> show ?thesis by simp
  next
    case (Cons x xs)
    obtain t' h where x: "x = (t', h)" by (cases x)
    have "(t', h) \<in> set (F (length n))" unfolding Cons x by simp
    then have "h = [1 \<mapsto> n, 2 \<mapsto> v]" by (rule same)
    with Cons x that show ?thesis by simp
  qed
  have "concat (map F [1..<length n]) = []" using before by simp
  then have "run s package_re (s, Map.empty)
      = (t', [1 \<mapsto> n, 2 \<mapsto> v]) # xs
          @ concat (map F [Suc (length n)..<Suc (reps AnyChar s)])"
    unfolding run ks using hd by simp
  then have "parse_package_filename s = (Some n, Some v)"
    by (simp add: parse_package_filename_def re_match_def group_def)
  then show ?thesis by (simp add: s_def)
qed

section \<open>The parser on well-formed and on other names\<close>



lemma parse_fst_None: "fst (parse_package_filename f) = None \<Longrightarrow> parse_package_filename f = (None, None)"
  using parse_match [of f] by (cases "parse_package_filename f = (None, None)") auto

lemma parse_fst_Some:
  assumes "fst (parse_package_filename f) = Some n"
  shows "\<exists>v. parse_package_filename f = (Some n, Some v) \<and> n \<noteq> [] \<and> v \<noteq> []"
proof -
  from assms have "parse_package_filename f \<noteq> (None, None)" by auto
  from parse_match [OF this] assms show ?thesis by (auto dest: vlang_nonempty)
qed

text \<open>
  C1, as the claim states it, fails. The empty name with the version 1.0.0 is not parsed,
  since the name group needs one character. The name \<^verbatim>\<open>a-1.0.0-b\<close> with the version
  2.0.0 is parsed as the name \<^verbatim>\<open>a\<close> with the version \<^verbatim>\<open>1.0.0-b-2.0.0\<close>, since the lazy
  name group stops at the first dash after which a version can be read. A name with a
  line feed is not parsed, since \<^verbatim>\<open>.\<close> does not match a line feed.
\<close>

theorem parse_counterexamples:
  "parse_package_filename ([] @ ''-'' @ ''1.0.0'' @ ''.tar.gz'') = (None, None)
   \<and> parse_package_filename (''a-1.0.0-b'' @ ''-'' @ ''2.0.0'' @ ''.tar.gz'')
       = (Some ''a'', Some ''1.0.0-b-2.0.0'')
   \<and> parse_package_filename (''a\<newline>b'' @ ''-'' @ ''1.0.0'' @ ''.tar.gz'') = (None, None)"
  by code_simp

text \<open>
  C1, amended. For every non-empty name \<open>n\<close> without a line feed in which no dash after
  the first character is directly followed by a version token, and every version made of
  three non-empty runs of digits separated by dots and followed by a suffix without a line
  feed, the parser returns exactly the name and the version on the file name
  \<open>n-version.tar.gz\<close>.
\<close>

theorem parse_well_formed:
  assumes "digits major" and "digits minor" and "digits patch"
    and "newline \<notin> set suffix"
    and "n \<noteq> []" and "newline \<notin> set n" and "\<not> early_split n"
  shows "parse_package_filename
           (n @ ''-'' @ (major @ ''.'' @ minor @ ''.'' @ patch @ suffix) @ ''.tar.gz'')
         = (Some n, Some (major @ ''.'' @ minor @ ''.'' @ patch @ suffix))"
proof -
  have "vlang (major @ ''.'' @ minor @ ''.'' @ patch @ suffix)"
    unfolding vlang_def using assms(1-4) by blast
  from parse_first_split [OF assms(5,6) this assms(7)] show ?thesis .
qed

text \<open>
  The amended C1 at the name \<^verbatim>\<open>py-2to3-base\<close> and the version \<^verbatim>\<open>1.12.0rc1\<close>: a dash
  followed by a digit does not split the name when no version token follows it.
\<close>

theorem parse_well_formed_witness:
  "digits ''1'' \<and> digits ''12'' \<and> digits ''0'' \<and> newline \<notin> set ''rc1''
   \<and> ''py-2to3-base'' \<noteq> [] \<and> newline \<notin> set ''py-2to3-base'' \<and> \<not> early_split ''py-2to3-base''
   \<and> parse_package_filename
       (''py-2to3-base'' @ ''-'' @ (''1'' @ ''.'' @ ''12'' @ ''.'' @ ''0'' @ ''rc1'') @ ''.tar.gz'')
       = (Some ''py-2to3-base'', Some (''1'' @ ''.'' @ ''12'' @ ''.'' @ ''0'' @ ''rc1''))"
proof -
  have h: "digits ''1''" "digits ''12''" "digits ''0''" "newline \<notin> set ''rc1''"
    "''py-2to3-base'' \<noteq> []" "newline \<notin> set ''py-2to3-base''" "\<not> early_split ''py-2to3-base''"
    by code_simp+
  from h parse_well_formed [OF h] show ?thesis by blast
qed

subsection \<open>The names that the builder parses\<close>





text \<open>
  The line feed matters only when the parser is called on a string that the builder never
  passes to it: \<^verbatim>\<open>$\<close> also matches just before a line feed that ends the subject, so the
  name \<^verbatim>\<open>a-1.0.0.tar.gz\<close> followed by a line feed would be parsed, but \<^verbatim>\<open>glob\<close> does not
  yield that name.
\<close>

lemma final_line_feed:
  "parse_package_filename (''a-1.0.0.tar.gz'' @ [newline]) = (Some ''a'', Some ''1.0.0'')
   \<and> glob [''a-1.0.0.tar.gz'' @ [newline]] = []"
  by code_simp





section \<open>The accumulator\<close>

lemma loop_body_cases:
  "loop_body packages f =
     (case fst (parse_package_filename f) of
        None \<Rightarrow> Inr packages
      | Some n \<Rightarrow> add_version packages n (version_of f))"
proof (cases "fst (parse_package_filename f)")
  case None
  then show ?thesis using parse_fst_None [OF None] by (simp add: loop_body_def)
next
  case (Some n)
  from parse_fst_Some [OF Some] obtain v where
    "parse_package_filename f = (Some n, Some v)" "n \<noteq> []" "v \<noteq> []" by blast
  then show ?thesis by (simp add: loop_body_def version_of_def)
qed

lemma distinct_setitem: "distinct (map fst d) \<Longrightarrow> distinct (map fst (setitem d k v))"
  by (simp add: keys_setitem)

lemma represents_empty: "represents [] (\<lambda>n. [])"
  by (simp add: represents_def)

lemma add_version_represents:
  assumes "represents d vs"
  shows "\<exists>d'. add_version d n v = Inr d' \<and> represents d' (vs(n := vs n @ [v]))"
proof (cases "vs n = []")
  case True
  with assms have absent: "map_of d n = None" by (simp add: represents_def)
  let ?d' = "setitem (setitem (setitem d n (new_entry v)) n
      (JObj [(''versions'', JArr [JStr v]), (''latest'', JStr v)])) n
      (JObj [(''versions'', JArr [JStr v]), (''latest'', JStr v)])"
  have "add_version d n v = Inr ?d'"
    using absent
    by (simp add: add_version_def ensure_entry_def contains_def append_version_def
        set_latest_def getitem_def map_of_setitem new_entry_def)
  moreover have "represents ?d' (vs(n := vs n @ [v]))"
    using assms True
    by (auto simp: represents_def map_of_setitem entry_of_def intro!: distinct_setitem)
  ultimately show ?thesis by blast
next
  case False
  with assms have present: "map_of d n = Some (entry_of (vs n))" by (simp add: represents_def)
  let ?e = "JObj [(''versions'', JArr (map JStr (vs n @ [v]))), (''latest'', JStr v)]"
  let ?d1 = "setitem d n (JObj [(''versions'', JArr (map JStr (vs n) @ [JStr v])),
      (''latest'', JStr (last (vs n)))])"
  let ?d' = "setitem ?d1 n ?e"
  have "add_version d n v = Inr ?d'"
    using present
    by (simp add: add_version_def ensure_entry_def contains_def append_version_def
        set_latest_def getitem_def map_of_setitem entry_of_def)
  moreover have "represents ?d' (vs(n := vs n @ [v]))"
    using assms False
    by (auto simp: represents_def map_of_setitem entry_of_def intro!: distinct_setitem)
  ultimately show ?thesis by blast
qed

lemma versions_of_Nil: "versions_of n [] = []"
  by (simp add: versions_of_def archives_of_def)

lemma versions_of_Cons:
  "versions_of n (f # fs) =
     (if fst (parse_package_filename f) = Some n then [version_of f] else []) @ versions_of n fs"
  by (simp add: versions_of_def archives_of_def)

lemma loop_represents:
  "represents d vs \<Longrightarrow>
     \<exists>d'. loop d files = Inr d' \<and> represents d' (\<lambda>n. vs n @ versions_of n files)"
proof (induction files arbitrary: d vs)
  case Nil
  then show ?case by (simp add: versions_of_Nil)
next
  case (Cons f fs)
  show ?case
  proof (cases "fst (parse_package_filename f)")
    case None
    then have "loop d (f # fs) = loop d fs" by (simp add: loop_body_cases)
    moreover have "\<And>n. versions_of n (f # fs) = versions_of n fs"
      using None by (simp add: versions_of_Cons)
    ultimately show ?thesis using Cons.IH [OF Cons.prems] by simp
  next
    case (Some m)
    from add_version_represents [OF Cons.prems, of m "version_of f"]
    obtain d1 where d1: "add_version d m (version_of f) = Inr d1"
      "represents d1 (vs(m := vs m @ [version_of f]))"
      by blast
    from Cons.IH [OF d1(2)]
    obtain d' where d': "loop d1 fs = Inr d'"
      "represents d' (\<lambda>n. (vs(m := vs m @ [version_of f])) n @ versions_of n fs)" by blast
    have "loop d (f # fs) = Inr d'" using Some d1(1) d'(1) by (simp add: loop_body_cases)
    moreover have "(\<lambda>n. (vs(m := vs m @ [version_of f])) n @ versions_of n fs)
        = (\<lambda>n. vs n @ versions_of n (f # fs))"
      using Some by (auto simp: versions_of_Cons fun_eq_iff)
    ultimately show ?thesis using d'(2) by simp
  qed
qed

lemma loop_from_empty:
  "\<exists>d. loop [] files = Inr d \<and> represents d (\<lambda>n. versions_of n files)"
  using loop_represents [OF represents_empty, of files] by simp

lemma represents_getitem2:
  assumes "represents d vs" and "vs n \<noteq> []"
  shows "getitem d n = Inr (entry_of (vs n))"
    and "getitem2 d n ''versions'' = Inr (JArr (map JStr (vs n)))"
    and "getitem2 d n ''latest'' = Inr (JStr (last (vs n)))"
  using assms by (simp_all add: represents_def getitem2_def getitem_def entry_of_def)

lemma represents_absent:
  assumes "represents d vs" and "vs n = []"
  shows "\<not> contains d n"
  using assms by (simp add: represents_def contains_def)

lemma well_formed_entry_of: "vs \<noteq> [] \<Longrightarrow> well_formed_entry (entry_of vs)"
  by (simp add: well_formed_entry_def entry_of_def last_map)

lemma represents_well_formed:
  assumes "represents d vs"
  shows "list_all well_formed_entry (map snd d)"
proof -
  have "well_formed_entry e" if "(n, e) \<in> set d" for n e
  proof -
    from assms have "distinct (map fst d)" by (simp add: represents_def)
    with that have "map_of d n = Some e" by simp
    with assms have "vs n \<noteq> []" "e = entry_of (vs n)"
      by (auto simp: represents_def split: if_splits)
    then show ?thesis by (simp add: well_formed_entry_of)
  qed
  then show ?thesis by (auto simp: list_all_iff)
qed

text \<open>
  C6. Whatever the list of file names that the loop processes, it ends without an
  exception, a name is a key of the registry exactly when one of the files is an archive of
  that name, and the list under \<^verbatim>\<open>versions\<close> of a name holds the versions of the archives
  of that name, one for each archive, in the order in which the loop met them; a version
  met twice is there twice.
\<close>

theorem versions_in_processing_order:
  "\<exists>packages. loop [] files = Inr packages \<and>
     (\<forall>name. if archives_of name files = [] then \<not> contains packages name
             else getitem2 packages name ''versions''
                    = Inr (JArr (map JStr (map version_of (archives_of name files)))))"
proof -
  from loop_from_empty [of files] obtain d where
    d: "loop [] files = Inr d" "represents d (\<lambda>n. versions_of n files)" by blast
  have "if archives_of name files = [] then \<not> contains d name
        else getitem2 d name ''versions''
               = Inr (JArr (map JStr (map version_of (archives_of name files))))" for name
  proof (cases "archives_of name files = []")
    case True
    then have "versions_of name files = []" by (simp add: versions_of_def)
    with represents_absent [OF d(2), of name] True show ?thesis by simp
  next
    case False
    then have "versions_of name files \<noteq> []" by (simp add: versions_of_def)
    from represents_getitem2(2) [OF d(2), of name, OF this] False
    show ?thesis by (simp add: versions_of_def)
  qed
  with d(1) show ?thesis by blast
qed

text \<open>
  C6 on a list in which one archive comes twice: its version is appended twice.
\<close>

theorem versions_in_processing_order_witness:
  "\<exists>packages.
     loop [] [''a-1.0.0.tar.gz'', ''b-2.0.0.tar.gz'', ''a-1.0.0.tar.gz'', ''a-0.9.0.tar.gz'']
       = Inr packages
     \<and> getitem2 packages ''a'' ''versions'' = Inr (JArr [JStr ''1.0.0'', JStr ''1.0.0'', JStr ''0.9.0''])
     \<and> getitem2 packages ''b'' ''versions'' = Inr (JArr [JStr ''2.0.0''])
     \<and> \<not> contains packages ''c''"
proof -
  let ?files = "[''a-1.0.0.tar.gz'', ''b-2.0.0.tar.gz'', ''a-1.0.0.tar.gz'', ''a-0.9.0.tar.gz'']"
  have a: "archives_of ''a'' ?files = [''a-1.0.0.tar.gz'', ''a-1.0.0.tar.gz'', ''a-0.9.0.tar.gz'']"
    and b: "archives_of ''b'' ?files = [''b-2.0.0.tar.gz'']"
    and c: "archives_of ''c'' ?files = []"
    and v: "map version_of [''a-1.0.0.tar.gz'', ''a-1.0.0.tar.gz'', ''a-0.9.0.tar.gz'']
              = [''1.0.0'', ''1.0.0'', ''0.9.0'']"
       "map version_of [''b-2.0.0.tar.gz''] = [''2.0.0'']"
    by code_simp+
  from versions_in_processing_order [of ?files] obtain packages where
    p: "loop [] ?files = Inr packages"
    "\<And>name. if archives_of name ?files = [] then \<not> contains packages name
             else getitem2 packages name ''versions''
                    = Inr (JArr (map JStr (map version_of (archives_of name ?files))))"
    by blast
  from p(2) [of "''a''"] p(2) [of "''b''"] p(2) [of "''c''"] p(1)
  show ?thesis unfolding a b c v by auto
qed


section \<open>The latest version\<close>

lemma sorted_le_last:
  fixes x :: "'a::linorder"
  shows "sorted ys \<Longrightarrow> x \<in> set ys \<Longrightarrow> x \<le> last ys"
  by (induction ys) auto

lemma last_of_sorted:
  fixes f :: "'a::linorder"
  assumes "sorted ys" and "f \<in> set ys" and "\<forall>y\<in>set ys. y \<le> f"
  shows "last ys = f"
proof -
  from assms(2) have ne: "ys \<noteq> []" by auto
  then have "last ys \<in> set ys" by simp
  with assms(3) have "last ys \<le> f" by blast
  moreover have "f \<le> last ys" using assms(1,2) by (rule sorted_le_last)
  ultimately show ?thesis by simp
qed

lemma in_glob: "f \<in> set (glob entries) \<longleftrightarrow> f \<in> set entries \<and> endswith f ''.tar.gz''"
  by (simp add: glob_def)

text \<open>
  C2. When \<open>f\<close> is an archive of a name in the directory, and no archive of that name in
  the directory comes after \<open>f\<close> in the order of the file names, the run gives that name
  the version of \<open>f\<close> as \<^verbatim>\<open>latest\<close>. The versions are not compared: only the order of
  the file names counts.
\<close>

theorem latest_is_last_processed:
  assumes "f \<in> set entries" and "endswith f ''.tar.gz''"
    and "parse_package_filename f = (Some name, Some version)"
    and "list_all (\<lambda>f'. endswith f' ''.tar.gz'' \<and> fst (parse_package_filename f') = Some name
                     \<longrightarrow> f' \<le> f) entries"
  shows "\<exists>packages. build_packages entries = Inr packages
           \<and> getitem2 packages name ''latest'' = Inr (JStr version)"
proof -
  let ?files = "sort (glob entries)"
  let ?A = "archives_of name ?files"
  from loop_from_empty [of ?files] obtain d where
    d: "loop [] ?files = Inr d" "represents d (\<lambda>n. versions_of n ?files)" by blast
  have "sorted ?A" unfolding archives_of_def by (rule sorted_wrt_filter) simp
  moreover have fA: "f \<in> set ?A" using assms(1-3) by (simp add: archives_of_def in_glob)
  moreover have "\<forall>y\<in>set ?A. y \<le> f"
    using assms(4) by (auto simp: archives_of_def in_glob list_all_iff)
  ultimately have "last ?A = f" by (rule last_of_sorted)
  moreover from fA have ne: "?A \<noteq> []" by auto
  ultimately have "last (versions_of name ?files) = version_of f"
    by (simp add: versions_of_def last_map)
  also have "version_of f = version" using assms(3) by (simp add: version_of_def)
  finally have "last (versions_of name ?files) = version" .
  moreover have "versions_of name ?files \<noteq> []" using ne by (simp add: versions_of_def)
  ultimately have "getitem2 d name ''latest'' = Inr (JStr version)"
    using represents_getitem2(3) [OF d(2), of name] by simp
  with d(1) show ?thesis by (auto simp: build_packages_def)
qed

text \<open>
  C2 where the lower version sorts later: \<^verbatim>\<open>pkg-10.0.0.tar.gz\<close> comes before
  \<^verbatim>\<open>pkg-9.0.0.tar.gz\<close>, and \<^verbatim>\<open>latest\<close> is 9.0.0.
\<close>

theorem latest_is_last_processed_witness:
  "''pkg-9.0.0.tar.gz'' \<in> set [''pkg-9.0.0.tar.gz'', ''pkg-10.0.0.tar.gz'', ''tools-0.9.1.tar.gz'']
   \<and> endswith ''pkg-9.0.0.tar.gz'' ''.tar.gz''
   \<and> parse_package_filename ''pkg-9.0.0.tar.gz'' = (Some ''pkg'', Some ''9.0.0'')
   \<and> parse_package_filename ''pkg-10.0.0.tar.gz'' = (Some ''pkg'', Some ''10.0.0'')
   \<and> ''pkg-10.0.0.tar.gz'' < ''pkg-9.0.0.tar.gz''
   \<and> (\<exists>packages.
         build_packages [''pkg-9.0.0.tar.gz'', ''pkg-10.0.0.tar.gz'', ''tools-0.9.1.tar.gz'']
           = Inr packages
         \<and> getitem2 packages ''pkg'' ''latest'' = Inr (JStr ''9.0.0''))"
proof -
  let ?entries = "[''pkg-9.0.0.tar.gz'', ''pkg-10.0.0.tar.gz'', ''tools-0.9.1.tar.gz'']"
  have h: "''pkg-9.0.0.tar.gz'' \<in> set ?entries"
    "endswith ''pkg-9.0.0.tar.gz'' ''.tar.gz''"
    "parse_package_filename ''pkg-9.0.0.tar.gz'' = (Some ''pkg'', Some ''9.0.0'')"
    "list_all (\<lambda>f'. endswith f' ''.tar.gz'' \<and> fst (parse_package_filename f') = Some ''pkg''
                     \<longrightarrow> f' \<le> ''pkg-9.0.0.tar.gz'') ?entries"
    by code_simp+
  have more: "parse_package_filename ''pkg-10.0.0.tar.gz'' = (Some ''pkg'', Some ''10.0.0'')"
    "''pkg-10.0.0.tar.gz'' < ''pkg-9.0.0.tar.gz''"
    by code_simp+
  from h(1-3) more latest_is_last_processed [OF h] show ?thesis by blast
qed

text \<open>
  C10. After any number \<open>k\<close> of processed files, and so at the end of the loop, every
  entry of the registry has a non-empty list of versions, and its \<^verbatim>\<open>latest\<close> is the last
  element of that list.
\<close>

theorem entries_well_formed:
  "\<exists>packages. loop [] (take k files) = Inr packages
     \<and> list_all well_formed_entry (map snd packages)"
proof -
  from loop_from_empty [of "take k files"] obtain d where
    "loop [] (take k files) = Inr d" "represents d (\<lambda>n. versions_of n (take k files))" by blast
  then show ?thesis using represents_well_formed by blast
qed

section \<open>Determinism\<close>

lemma sort_glob_unique:
  assumes "distinct xs" and "distinct ys" and "set xs = set ys"
  shows "sort (glob xs) = sort (glob ys)"
proof (rule sorted_distinct_set_unique)
  show "sorted (sort (glob xs))" "sorted (sort (glob ys))" by simp_all
  show "distinct (sort (glob xs))" using assms(1) by (simp add: glob_def)
  show "distinct (sort (glob ys))" using assms(2) by (simp add: glob_def)
  show "set (sort (glob xs)) = set (sort (glob ys))" using assms(3) by (simp add: glob_def)
qed

text \<open>
  C8. The text written depends on the set of names in the directory only: two listings of
  the same directory, in whatever order the file system gives the names, lead to the same
  result, character by character.
\<close>

theorem main_deterministic:
  assumes "distinct xs" and "distinct ys" and "set xs = set ys"
  shows "main (Some xs) = main (Some ys)"
  using sort_glob_unique [OF assms] by (simp add: main_def build_packages_def)

text \<open>
  C8 on two listings of one directory.
\<close>

theorem main_deterministic_witness:
  "distinct [''tools-0.9.1.tar.gz'', ''README'', ''base-dev-1.0.0.tar.gz'']
   \<and> distinct [''base-dev-1.0.0.tar.gz'', ''tools-0.9.1.tar.gz'', ''README'']
   \<and> set [''tools-0.9.1.tar.gz'', ''README'', ''base-dev-1.0.0.tar.gz'']
       = set [''base-dev-1.0.0.tar.gz'', ''tools-0.9.1.tar.gz'', ''README'']
   \<and> main (Some [''tools-0.9.1.tar.gz'', ''README'', ''base-dev-1.0.0.tar.gz''])
       = main (Some [''base-dev-1.0.0.tar.gz'', ''tools-0.9.1.tar.gz'', ''README''])"
proof -
  have h: "distinct [''tools-0.9.1.tar.gz'', ''README'', ''base-dev-1.0.0.tar.gz'']"
    "distinct [''base-dev-1.0.0.tar.gz'', ''tools-0.9.1.tar.gz'', ''README'']"
    "set [''tools-0.9.1.tar.gz'', ''README'', ''base-dev-1.0.0.tar.gz'']
       = set [''base-dev-1.0.0.tar.gz'', ''tools-0.9.1.tar.gz'', ''README'']"
    by auto
  from h main_deterministic [OF h] show ?thesis by blast
qed

lemma main_returns: "\<exists>text. main build_dir = Inr text"
proof (cases build_dir)
  case None
  then show ?thesis by (simp add: main_def)
next
  case (Some entries)
  from loop_from_empty [of "sort (glob entries)"] obtain d where
    "build_packages entries = Inr d" by (auto simp: build_packages_def)
  with Some show ?thesis by (simp add: main_def)
qed

section \<open>The example of the specification\<close>

text \<open>
  C3. The directory that holds \<^verbatim>\<open>base-dev-1.0.0.tar.gz\<close>, \<^verbatim>\<open>base-dev-1.2.0.tar.gz\<close> and
  \<^verbatim>\<open>tools-0.9.1.tar.gz\<close> gives the packages \<^verbatim>\<open>base-dev\<close>, with the versions 1.0.0 and
  1.2.0 and the latest version 1.2.0, and \<^verbatim>\<open>tools\<close>, with the version 0.9.1 and the latest
  version 0.9.1; the text written is this mapping under the key \<^verbatim>\<open>packages\<close>.
\<close>

theorem example_registry:
  "build_packages [''base-dev-1.0.0.tar.gz'', ''base-dev-1.2.0.tar.gz'', ''tools-0.9.1.tar.gz'']
     = Inr [(''base-dev'', JObj [(''versions'', JArr [JStr ''1.0.0'', JStr ''1.2.0'']),
                                 (''latest'', JStr ''1.2.0'')]),
            (''tools'', JObj [(''versions'', JArr [JStr ''0.9.1'']),
                              (''latest'', JStr ''0.9.1'')])]
   \<and> main (Some [''base-dev-1.0.0.tar.gz'', ''base-dev-1.2.0.tar.gz'', ''tools-0.9.1.tar.gz''])
     = Inr (print (dumps (JObj [(''packages'', JObj
         [(''base-dev'', JObj [(''versions'', JArr [JStr ''1.0.0'', JStr ''1.2.0'']),
                               (''latest'', JStr ''1.2.0'')]),
          (''tools'', JObj [(''versions'', JArr [JStr ''0.9.1'']),
                            (''latest'', JStr ''0.9.1'')])])])))"
  by code_simp

section \<open>The empty registry\<close>

lemma glob_nil: "list_all (\<lambda>f. \<not> endswith f ''.tar.gz'') entries \<Longrightarrow> glob entries = []"
  by (induction entries) (auto simp: glob_def)

lemma empty_text:
  "print (dumps (JObj [(''packages'', JObj [])]))
     = ''{'' @ [newline] @ ''  '' @ [CHR 0x22] @ ''packages'' @ [CHR 0x22] @ '': {}''
         @ [newline] @ ''}'' @ [newline]"
  by code_simp

text \<open>
  C4. When the build directory does not exist, or holds no entry whose name ends in
  \<^verbatim>\<open>.tar.gz\<close>, the run ends without an exception and writes the object with the one key
  \<^verbatim>\<open>packages\<close> and an empty mapping, as \<^verbatim>\<open>json.dumps\<close> lays it out with an indentation of
  two spaces: an opening brace, the key and \<^verbatim>\<open>{}\<close> on a line indented by two spaces, and
  the closing brace, each line ended by a line feed.
\<close>

theorem empty_registry:
  assumes "case build_dir of None \<Rightarrow> True
           | Some entries \<Rightarrow> list_all (\<lambda>f. \<not> endswith f ''.tar.gz'') entries"
  shows "main build_dir
           = Inr (''{'' @ [newline] @ ''  '' @ [CHR 0x22] @ ''packages'' @ [CHR 0x22] @ '': {}''
                    @ [newline] @ ''}'' @ [newline])"
proof (cases build_dir)
  case None
  then show ?thesis using empty_text by (simp add: main_def)
next
  case (Some entries)
  with assms have "glob entries = []" by (simp add: glob_nil)
  then have "build_packages entries = Inr []" by (simp add: build_packages_def)
  with Some show ?thesis using empty_text by (simp add: main_def)
qed

theorem empty_registry_witness:
  "main None = Inr (''{'' @ [newline] @ ''  '' @ [CHR 0x22] @ ''packages'' @ [CHR 0x22] @ '': {}''
                    @ [newline] @ ''}'' @ [newline])
   \<and> main (Some [''README.md'', ''pkg-1.0.0.tar'', ''tar.gz''])
       = Inr (''{'' @ [newline] @ ''  '' @ [CHR 0x22] @ ''packages'' @ [CHR 0x22] @ '': {}''
                    @ [newline] @ ''}'' @ [newline])"
  using empty_registry [of None]
    empty_registry [of "Some [''README.md'', ''pkg-1.0.0.tar'', ''tar.gz'']"]
  by (simp add: endswith_def)

section \<open>The entry of a new name\<close>

text \<open>
  C7, as the claim states it, fails: the entry made for the new name \<^verbatim>\<open>pkg\<close> at the
  version 1.0.0 has the key \<^verbatim>\<open>latest\<close>, and its value is 1.0.0.
\<close>

theorem new_entry_latest_set:
  "getitem (ensure_entry [] ''pkg'' ''1.0.0'') ''pkg''
     = Inr (JObj [(''versions'', JArr []), (''latest'', JStr ''1.0.0'')])
   \<and> getitem [(''versions'', JArr []), (''latest'', JStr ''1.0.0'')] ''latest'' = Inr (JStr ''1.0.0'')
   \<and> contains [(''versions'', JArr []), (''latest'', JStr ''1.0.0'')] ''latest''"
  by (simp add: ensure_entry_def contains_def getitem_def new_entry_def)

text \<open>
  C7, amended. When a name is met for the first time, its entry is created with an empty
  list of versions and with \<^verbatim>\<open>latest\<close> already set to the version of the archive at hand,
  before that version is appended.
\<close>

theorem new_entry_created:
  assumes "\<not> contains packages name"
  shows "getitem (ensure_entry packages name version) name
           = Inr (JObj [(''versions'', JArr []), (''latest'', JStr version)])"
  using assms by (simp add: ensure_entry_def getitem_setitem new_entry_def)

theorem new_entry_created_witness:
  "\<not> contains [(''tools'', JObj [(''versions'', JArr [JStr ''0.9.1'']),
                                  (''latest'', JStr ''0.9.1'')])] ''pkg''
   \<and> getitem (ensure_entry [(''tools'', JObj [(''versions'', JArr [JStr ''0.9.1'']),
                                               (''latest'', JStr ''0.9.1'')])] ''pkg'' ''1.0.0'') ''pkg''
       = Inr (JObj [(''versions'', JArr []), (''latest'', JStr ''1.0.0'')])"
  using new_entry_created [of "[(''tools'', JObj [(''versions'', JArr [JStr ''0.9.1'']),
                                                  (''latest'', JStr ''0.9.1'')])]" "''pkg''" "''1.0.0''"]
  by (simp add: contains_def)

end
